theory Spec2Isabelle
  imports Main "HOL-Library.AList" "HOL-Library.DAList" "HOL-Library.Word"
begin

section \<open>The transactional key-value store of \<^verbatim>\<open>src/kvs/key_value_store.h\<close>\<close>

subsection \<open>Data model\<close>

text \<open>
  A \<^verbatim>\<open>std::unordered_map<std::string, X>\<close> is a finite table with at most one entry per
  key that can be searched, updated, erased and iterated. It is modelled as an
  association list with distinct keys, the type \<open>(key, 'x) alist\<close>:
  \<^item> \<^verbatim>\<open>m.find(k)\<close> is \<open>DAList.lookup m k\<close> (\<open>None\<close> for \<^verbatim>\<open>m.end()\<close>);
  \<^item> \<^verbatim>\<open>m[k] = x\<close> is \<open>DAList.update k x m\<close>;
  \<^item> \<^verbatim>\<open>m.erase(k)\<close> is \<open>DAList.delete k m\<close>;
  \<^item> \<^verbatim>\<open>for (kv : m)\<close> visits the entries \<open>DAList.impl_of m\<close>, and \<^verbatim>\<open>m.size()\<close> is their
    number.
  The order in which the entries are visited is the order of the list; nothing below
  depends on which order it is.

  A \<^verbatim>\<open>std::optional<T>\<close> is a \<open>'v option\<close>: \<^verbatim>\<open>std::nullopt\<close> is \<open>None\<close>. In a transaction
  layer the entry \<open>(k, None)\<close> is the tombstone of \<open>k\<close>.

  The \<^verbatim>\<open>std::vector\<close> of layers is a list whose last element is \<^verbatim>\<open>back()\<close>.
  The members \<^verbatim>\<open>data_\<close> and \<^verbatim>\<open>transactions_\<close> are the fields \<open>data\<close> and \<open>transactions\<close>
  (an identifier cannot end with an underscore here).
\<close>

type_synonym key = string

type_synonym 'v diff = "(key, 'v option) alist"

record 'v KeyValueStore =
  data :: "(key, 'v) alist"
  transactions :: "'v diff list"

text \<open>The constructor leaves both members empty.\<close>

definition new_store :: "'v KeyValueStore" where
  "new_store = \<lparr>data = DAList.empty, transactions = []\<rparr>"

subsection \<open>BuildVisibleState\<close>

text \<open>
  The body of the inner loop of \<^verbatim>\<open>BuildVisibleState\<close>, which is also the body of the loop
  of \<^verbatim>\<open>Commit\<close> that merges into the base store: a tombstone erases the key, a value is
  assigned.
\<close>

definition apply_entry :: "key \<times> 'v option \<Rightarrow> (key, 'v) alist \<Rightarrow> (key, 'v) alist" where
  "apply_entry kv result =
     (case snd kv of
        None \<Rightarrow> DAList.delete (fst kv) result
      | Some v \<Rightarrow> DAList.update (fst kv) v result)"

definition apply_diff :: "'v diff \<Rightarrow> (key, 'v) alist \<Rightarrow> (key, 'v) alist" where
  "apply_diff d result = fold apply_entry (DAList.impl_of d) result"

definition BuildVisibleState :: "'v KeyValueStore \<Rightarrow> (key, 'v) alist" where
  "BuildVisibleState s = fold apply_diff (transactions s) (data s)"

subsection \<open>Get, Set, Del\<close>

text \<open>
  The loop of \<^verbatim>\<open>Get\<close> over \<^verbatim>\<open>rbegin() .. rend()\<close>, as a recursion over the reversed
  vector. \<open>Some r\<close> is a \<^verbatim>\<open>return r\<close> from inside the loop, \<open>None\<close> is leaving the loop at
  \<^verbatim>\<open>rend()\<close>.
\<close>

fun Get_scan :: "'v diff list \<Rightarrow> key \<Rightarrow> 'v option option" where
  "Get_scan [] k = None"
| "Get_scan (d # ds) k =
     (case DAList.lookup d k of
        Some found \<Rightarrow> (case found of None \<Rightarrow> Some None | Some v \<Rightarrow> Some (Some v))
      | None \<Rightarrow> Get_scan ds k)"

definition Get :: "'v KeyValueStore \<Rightarrow> key \<Rightarrow> 'v option" where
  "Get s k =
     (case Get_scan (rev (transactions s)) k of
        Some r \<Rightarrow> r
      | None \<Rightarrow>
          (case DAList.lookup (data s) k of
             Some v \<Rightarrow> Some v
           | None \<Rightarrow> None))"

definition Set :: "'v KeyValueStore \<Rightarrow> key \<Rightarrow> 'v \<Rightarrow> 'v KeyValueStore" where
  "Set s k v =
     (if transactions s \<noteq> [] then
        s\<lparr>transactions :=
            butlast (transactions s) @ [DAList.update k (Some v) (last (transactions s))]\<rparr>
      else s\<lparr>data := DAList.update k v (data s)\<rparr>)"

definition Del :: "'v KeyValueStore \<Rightarrow> key \<Rightarrow> 'v KeyValueStore" where
  "Del s k =
     (if transactions s \<noteq> [] then
        s\<lparr>transactions :=
            butlast (transactions s) @ [DAList.update k None (last (transactions s))]\<rparr>
      else s\<lparr>data := DAList.delete k (data s)\<rparr>)"

subsection \<open>Begin, Commit, Rollback\<close>

definition Begin :: "'v KeyValueStore \<Rightarrow> 'v KeyValueStore" where
  "Begin s = s\<lparr>transactions := transactions s @ [DAList.empty]\<rparr>"

text \<open>The loop of \<^verbatim>\<open>Commit\<close> that merges into the layer below copies every entry as it is.\<close>

definition merge_below :: "'v diff \<Rightarrow> 'v diff \<Rightarrow> 'v diff" where
  "merge_below top_diff below_diff =
     fold (\<lambda>kv below. DAList.update (fst kv) (snd kv) below) (DAList.impl_of top_diff) below_diff"

definition Commit :: "'v KeyValueStore \<Rightarrow> 'v KeyValueStore" where
  "Commit s =
     (if transactions s = [] then s
      else
        let top_diff = last (transactions s);
            popped = butlast (transactions s)
        in if popped \<noteq> [] then
             s\<lparr>transactions := butlast popped @ [merge_below top_diff (last popped)]\<rparr>
           else
             s\<lparr>transactions := popped,
               data := fold apply_entry (DAList.impl_of top_diff) (data s)\<rparr>)"

definition Rollback :: "'v KeyValueStore \<Rightarrow> 'v KeyValueStore" where
  "Rollback s =
     (if transactions s = [] then s
      else s\<lparr>transactions := butlast (transactions s)\<rparr>)"

subsection \<open>Keys and Count\<close>

text \<open>
  \<^verbatim>\<open>Keys\<close> pushes the selected keys to the back of a vector. \<^verbatim>\<open>Count\<close> returns a
  \<^verbatim>\<open>uint32_t\<close>: the size of the visible state cast to 32 bits, or a 32-bit counter
  incremented once per matching entry.
\<close>

definition Keys :: "'v KeyValueStore \<Rightarrow> 'v option \<Rightarrow> key list" where
  "Keys s with_value =
     (let state = BuildVisibleState s
      in fold (\<lambda>kv keys.
                 case with_value of
                   Some w \<Rightarrow> (if snd kv = w then keys @ [fst kv] else keys)
                 | None \<Rightarrow> keys @ [fst kv])
              (DAList.impl_of state) [])"

definition Count :: "'v KeyValueStore \<Rightarrow> 'v option \<Rightarrow> 32 word" where
  "Count s with_value =
     (let state = BuildVisibleState s
      in case with_value of
           None \<Rightarrow> of_nat (length (DAList.impl_of state))
         | Some w \<Rightarrow>
             fold (\<lambda>kv count. if snd kv = w then count + 1 else count)
                  (DAList.impl_of state) 0)"

subsection \<open>Sequences of operations\<close>

datatype 'v operation =
  OpBegin | OpSet key 'v | OpDel key | OpCommit | OpRollback

fun step :: "'v operation \<Rightarrow> 'v KeyValueStore \<Rightarrow> 'v KeyValueStore" where
  "step OpBegin s = Begin s"
| "step (OpSet k v) s = Set s k v"
| "step (OpDel k) s = Del s k"
| "step OpCommit s = Commit s"
| "step OpRollback s = Rollback s"

definition run :: "'v operation list \<Rightarrow> 'v KeyValueStore \<Rightarrow> 'v KeyValueStore" where
  "run ops s = fold step ops s"

text \<open>The operations that \<open>Set\<close> or \<open>Del\<close> a key.\<close>

fun is_mutation :: "'v operation \<Rightarrow> bool" where
  "is_mutation (OpSet k v) = True"
| "is_mutation (OpDel k) = True"
| "is_mutation OpBegin = False"
| "is_mutation OpCommit = False"
| "is_mutation OpRollback = False"

subsection \<open>Example stores\<close>

text \<open>
  A store with two committed keys and three open transactions: the outermost sets \<open>k\<close>,
  the middle one deletes it, the innermost sets \<open>j\<close>.
\<close>

definition base0 :: "(key, int) alist" where
  "base0 = DAList.update ''b'' 9 (DAList.update ''k'' 5 DAList.empty)"

definition layer1 :: "int diff" where
  "layer1 = DAList.update ''k'' (Some 1) DAList.empty"

definition layer2 :: "int diff" where
  "layer2 = DAList.update ''k'' None DAList.empty"

definition layer3 :: "int diff" where
  "layer3 = DAList.update ''j'' (Some 7) DAList.empty"

definition demo_store :: "int KeyValueStore" where
  "demo_store = \<lparr>data = base0, transactions = [layer1, layer2, layer3]\<rparr>"

text \<open>
  The same base store with no open transaction, with the three layers in another order,
  and with a single layer (a tombstone, or a value).
\<close>

definition idle_store :: "int KeyValueStore" where
  "idle_store = \<lparr>data = base0, transactions = []\<rparr>"

definition nested_store :: "int KeyValueStore" where
  "nested_store = \<lparr>data = base0, transactions = [layer3, layer1, layer2]\<rparr>"

definition single_store :: "int KeyValueStore" where
  "single_store = \<lparr>data = base0, transactions = [layer2]\<rparr>"

definition single_store' :: "int KeyValueStore" where
  "single_store' = \<lparr>data = base0, transactions = [layer1]\<rparr>"

text \<open>A sequence of operations that leaves three visible keys, two of them with value 1.\<close>

definition sample_ops :: "int operation list" where
  "sample_ops =
     [OpSet ''a'' 1, OpSet ''c'' 1, OpBegin, OpSet ''b'' 1, OpDel ''a'', OpBegin, OpSet ''d'' 2]"

text \<open>
  Many distinct keys: \<open>key_of n\<close> is the four-byte string of the base-256 digits of \<open>n\<close>,
  and \<open>fill_ops n\<close> sets the first \<open>n\<close> of these keys to 0, one \<open>Set\<close> call each.
\<close>

definition key_of :: "nat \<Rightarrow> key" where
  "key_of n = [char_of (n div 16777216), char_of (n div 65536), char_of (n div 256), char_of n]"

definition fill_ops :: "nat \<Rightarrow> int operation list" where
  "fill_ops n = map (\<lambda>i. OpSet (key_of i) 0) [0..<n]"

lemmas demo_defs = demo_store_def base0_def layer1_def layer2_def layer3_def

section \<open>Lemmas about the table operations and the loops\<close>

lemma lookup_apply_entry:
  "DAList.lookup (apply_entry kv r) k = (if k = fst kv then snd kv else DAList.lookup r k)"
  by (cases "snd kv") (auto simp: apply_entry_def DAList.lookup_update)

lemma lookup_fold_apply_entry:
  "distinct (map fst xs) \<Longrightarrow>
   DAList.lookup (fold apply_entry xs r) k =
     (case map_of xs k of None \<Rightarrow> DAList.lookup r k | Some e \<Rightarrow> e)"
proof (induction xs arbitrary: r)
  case Nil
  show ?case by simp
next
  case (Cons x xs)
  obtain kx e where x: "x = (kx, e)"
    by (cases x)
  from Cons.prems have d: "distinct (map fst xs)" and nx: "fst x \<notin> fst ` set xs"
    by simp_all
  from nx have absent: "map_of xs (fst x) = None"
    by (simp add: map_of_eq_None_iff)
  show ?case
  proof (cases "k = fst x")
    case True
    with absent Cons.IH [OF d, of "apply_entry x r"] show ?thesis
      by (simp add: x lookup_apply_entry)
  next
    case False
    with Cons.IH [OF d, of "apply_entry x r"] show ?thesis
      by (simp add: x lookup_apply_entry split: option.splits)
  qed
qed

lemma lookup_apply_diff:
  "DAList.lookup (apply_diff d r) k =
     (case DAList.lookup d k of None \<Rightarrow> DAList.lookup r k | Some e \<Rightarrow> e)"
  unfolding apply_diff_def
  using lookup_fold_apply_entry [of "DAList.impl_of d" r k]
  by (simp add: DAList.lookup.rep_eq)

lemma lookup_fold_update:
  "distinct (map fst xs) \<Longrightarrow>
   DAList.lookup (fold (\<lambda>kv below. DAList.update (fst kv) (snd kv) below) xs r) k =
     (case map_of xs k of None \<Rightarrow> DAList.lookup r k | Some e \<Rightarrow> Some e)"
proof (induction xs arbitrary: r)
  case Nil
  show ?case by simp
next
  case (Cons x xs)
  obtain kx e where x: "x = (kx, e)"
    by (cases x)
  from Cons.prems have d: "distinct (map fst xs)" and nx: "fst x \<notin> fst ` set xs"
    by simp_all
  from nx have absent: "map_of xs (fst x) = None"
    by (simp add: map_of_eq_None_iff)
  show ?case
  proof (cases "k = fst x")
    case True
    with absent Cons.IH [OF d, of "DAList.update (fst x) (snd x) r"] show ?thesis
      by (simp add: x)
  next
    case False
    with Cons.IH [OF d, of "DAList.update (fst x) (snd x) r"] show ?thesis
      by (simp add: x DAList.lookup_update split: option.splits)
  qed
qed

lemma lookup_merge_below:
  "DAList.lookup (merge_below top_diff below_diff) k =
     (case DAList.lookup top_diff k of None \<Rightarrow> DAList.lookup below_diff k | Some e \<Rightarrow> Some e)"
  unfolding merge_below_def
  using lookup_fold_update [of "DAList.impl_of top_diff" below_diff k]
  by (simp add: DAList.lookup.rep_eq)

lemma Get_scan_snoc_fold:
  "DAList.lookup (fold apply_diff ts base) k =
     (case Get_scan (rev ts) k of Some r \<Rightarrow> r | None \<Rightarrow> DAList.lookup base k)"
proof (induction ts rule: rev_induct)
  case Nil
  show ?case by simp
next
  case (snoc d ts)
  then show ?case
    by (simp add: lookup_apply_diff split: option.splits)
qed

lemma Get_eq_visible: "Get s k = DAList.lookup (BuildVisibleState s) k"
  by (simp add: Get_def BuildVisibleState_def Get_scan_snoc_fold split: option.splits)

lemma Get_scan_skip:
  "\<forall>d' \<in> set ds. DAList.lookup d' k = None \<Longrightarrow> Get_scan (ds @ rest) k = Get_scan rest k"
  by (induction ds) simp_all

lemma Get_scan_hit:
  "DAList.lookup d k = Some e \<Longrightarrow> Get_scan (d # ds) k = Some e"
  by (cases e) simp_all

lemma delete_absent: "DAList.lookup al k = None \<Longrightarrow> DAList.delete k al = al"
  by (simp add: DAList.alist_eq_iff DAList.delete.rep_eq DAList.lookup.rep_eq map_of_eq_None_iff)

lemma mutation_innermost_only:
  "list_all is_mutation muts \<Longrightarrow> transactions s = outer @ [d] \<Longrightarrow>
     \<exists>d'. run muts s = s\<lparr>transactions := outer @ [d']\<rparr>"
proof (induction muts arbitrary: s d)
  case Nil
  then show ?case
    by (auto simp: run_def intro: exI [of _ d])
next
  case (Cons m muts)
  from Cons.prems have mm: "is_mutation m" and rest: "list_all is_mutation muts"
    by simp_all
  from mm Cons.prems(2) obtain d1 where st: "step m s = s\<lparr>transactions := outer @ [d1]\<rparr>"
    by (cases m) (auto simp: Set_def Del_def)
  then have "transactions (step m s) = outer @ [d1]"
    by simp
  from Cons.IH [OF rest this] obtain d' where
    "run muts (step m s) = (step m s)\<lparr>transactions := outer @ [d']\<rparr>"
    by blast
  with st show ?case
    by (auto simp: run_def)
qed

subsection \<open>The loops of Keys and Count\<close>

lemma Keys_loop:
  "fold (\<lambda>kv keys.
           case with_value of
             Some w \<Rightarrow> (if snd kv = w then keys @ [fst kv] else keys)
           | None \<Rightarrow> keys @ [fst kv]) xs acc =
   acc @ map fst (filter (\<lambda>kv. case with_value of Some w \<Rightarrow> snd kv = w | None \<Rightarrow> True) xs)"
  by (induction xs arbitrary: acc) (simp_all split: option.splits)

lemma Count_loop:
  "fold (\<lambda>kv count. if snd kv = w then count + 1 else count) xs (c :: 32 word) =
   c + of_nat (length (filter (\<lambda>kv. snd kv = w) xs))"
  by (induction xs arbitrary: c) simp_all

lemma Keys_eq:
  "Keys s with_value =
     map fst (filter (\<lambda>kv. case with_value of Some w \<Rightarrow> snd kv = w | None \<Rightarrow> True)
       (DAList.impl_of (BuildVisibleState s)))"
  by (simp add: Keys_def Keys_loop)

lemma Count_eq:
  "Count s with_value =
     of_nat (length (filter (\<lambda>kv. case with_value of Some w \<Rightarrow> snd kv = w | None \<Rightarrow> True)
       (DAList.impl_of (BuildVisibleState s))))"
  by (cases with_value) (simp_all add: Count_def Count_loop)

lemma Count_Keys: "Count s with_value = of_nat (length (Keys s with_value))"
  by (simp add: Keys_eq Count_eq)

lemma Keys_distinct: "distinct (Keys s with_value)"
  unfolding Keys_eq by (rule distinct_map_fst_filter) simp

lemma Keys_set_filter:
  "set (Keys s (Some w)) = {k. DAList.lookup (BuildVisibleState s) k = Some w}"
  by (auto simp: Keys_eq DAList.lookup.rep_eq image_iff)

lemma Keys_set_all: "set (Keys s None) = dom (DAList.lookup (BuildVisibleState s))"
  by (simp add: Keys_eq DAList.lookup.rep_eq dom_map_of_conv_image_fst)

lemma Keys_length_filter:
  "length (Keys s (Some w)) = card {k. DAList.lookup (BuildVisibleState s) k = Some w}"
  using distinct_card [OF Keys_distinct, of s "Some w"] by (simp add: Keys_set_filter)

lemma Keys_length_all:
  "length (Keys s None) = card (dom (DAList.lookup (BuildVisibleState s)))"
  using distinct_card [OF Keys_distinct, of s None] by (simp add: Keys_set_all)

lemma Count_exact:
  "length (Keys s w) < 2 ^ 32 \<Longrightarrow> unat (Count s w) = length (Keys s w)"
  by (simp add: Count_Keys unat_of_nat)

lemma sample_visible:
  "DAList.impl_of (BuildVisibleState (run sample_ops new_store))
     = [(''c'', 1), (''b'', 1), (''d'', 2)]"
  by (simp add: sample_ops_def run_def new_store_def Set_def Del_def Begin_def
      BuildVisibleState_def apply_diff_def apply_entry_def
      DAList.update.rep_eq DAList.delete.rep_eq DAList.empty.rep_eq)

subsection \<open>A store with \<open>2 ^ 32\<close> keys\<close>

lemma char_of_nat_eq: "char_of (a::nat) = char_of b \<Longrightarrow> a mod 256 = b mod 256"
proof -
  assume "char_of a = char_of b"
  then have "(of_char (char_of a) :: nat) = of_char (char_of b)"
    by (rule arg_cong)
  then show ?thesis
    by (simp only: of_char_of)
qed

lemma div_mod_256_eq:
  "(x::nat) div 256 = y div 256 \<Longrightarrow> x mod 256 = y mod 256 \<Longrightarrow> x = y"
  by (metis div_mult_mod_eq)

lemma key_of_bytes:
  assumes eq: "key_of n = key_of m"
  shows "n mod 256 = m mod 256 \<and> n div 256 mod 256 = m div 256 mod 256
    \<and> n div 65536 mod 256 = m div 65536 mod 256
    \<and> n div 16777216 mod 256 = m div 16777216 mod 256"
proof -
  from eq have "char_of n = char_of m \<and> char_of (n div 256) = char_of (m div 256)
    \<and> char_of (n div 65536) = char_of (m div 65536)
    \<and> char_of (n div 16777216) = char_of (m div 16777216)"
    unfolding key_of_def by (simp only: list.inject)
  then show ?thesis
    by (blast intro: char_of_nat_eq)
qed

lemma key_of_inj:
  assumes n: "n < 4294967296" and m: "m < 4294967296" and eq: "key_of n = key_of m"
  shows "n = m"
proof -
  from key_of_bytes [OF eq] have
    a: "n mod 256 = m mod 256" and
    b: "n div 256 mod 256 = m div 256 mod 256" and
    c: "n div 65536 mod 256 = m div 65536 mod 256" and
    d: "n div 16777216 mod 256 = m div 16777216 mod 256"
    by blast+
  have n3: "n div 16777216 < 256"
    using n by (simp add: less_mult_imp_div_less)
  have m3: "m div 16777216 < 256"
    using m by (simp add: less_mult_imp_div_less)
  from d n3 m3 have "n div 16777216 = m div 16777216"
    by simp
  then have e3: "n div 65536 div 256 = m div 65536 div 256"
    by (simp add: div_mult2_eq [symmetric])
  from e3 c have e2: "n div 65536 = m div 65536"
    by (rule div_mod_256_eq)
  then have "n div 256 div 256 = m div 256 div 256"
    by (simp add: div_mult2_eq [symmetric])
  from this b have e1: "n div 256 = m div 256"
    by (rule div_mod_256_eq)
  from e1 a show ?thesis
    by (rule div_mod_256_eq)
qed

lemma update_fresh: "k \<notin> fst ` set al \<Longrightarrow> AList.update k v al = al @ [(k, v)]"
  by (induction al) auto

lemma run_snoc: "run (ops @ [x]) s = step x (run ops s)"
  by (simp add: run_def)

lemma fill_ops_Suc: "fill_ops (Suc n) = fill_ops n @ [OpSet (key_of n) 0]"
  by (simp add: fill_ops_def)

lemma fill_state:
  "n \<le> 4294967296 \<Longrightarrow>
     transactions (run (fill_ops n) new_store) = []
     \<and> DAList.impl_of (data (run (fill_ops n) new_store)) = map (\<lambda>i. (key_of i, 0)) [0..<n]"
proof (induction n)
  case 0
  show ?case
    by (simp add: fill_ops_def run_def new_store_def DAList.empty.rep_eq)
next
  case (Suc n)
  then have n: "n < 4294967296" and
    t: "transactions (run (fill_ops n) new_store) = []" and
    d: "DAList.impl_of (data (run (fill_ops n) new_store)) = map (\<lambda>i. (key_of i, 0)) [0..<n]"
    by simp_all
  have fresh: "key_of n \<notin> fst ` set (map (\<lambda>i. (key_of i, 0::int)) [0..<n])"
  proof
    assume "key_of n \<in> fst ` set (map (\<lambda>i. (key_of i, 0::int)) [0..<n])"
    then obtain i where i: "i < n" and e: "key_of n = key_of i"
      by (auto simp: image_iff)
    from i n have "i < 4294967296"
      by simp
    from key_of_inj [OF n this e] i show False
      by simp
  qed
  from t d show ?case
    by (simp add: fill_ops_Suc run_snoc Set_def DAList.update.rep_eq update_fresh [OF fresh])
qed

lemma fill_visible:
  "n \<le> 4294967296 \<Longrightarrow>
     DAList.impl_of (BuildVisibleState (run (fill_ops n) new_store))
       = map (\<lambda>i. (key_of i, 0)) [0..<n]"
  using fill_state [of n] by (simp add: BuildVisibleState_def)

lemma fill_count_keys:
  "n \<le> 4294967296 \<Longrightarrow>
     length (Keys (run (fill_ops n) new_store) None) = n
     \<and> length (Keys (run (fill_ops n) new_store) (Some 0)) = n"
  by (simp add: Keys_eq fill_visible)

section \<open>Properties\<close>

subsection \<open>Get against the visible state\<close>

text \<open>
  C1. After any finite sequence of Begin, Set, Del, Commit and Rollback run on a freshly
  constructed store, \<open>Get k\<close> is the value, or the absence, of \<open>k\<close> in the table that
  \<open>BuildVisibleState\<close> computes by applying the open layers to the base store from the
  oldest to the newest: the scan from the innermost layer outwards and the fold agree on
  every key.
\<close>

theorem get_agrees_with_visible_state:
  "Get (run ops new_store) k = DAList.lookup (BuildVisibleState (run ops new_store)) k"
  by (rule Get_eq_visible)

subsection \<open>Get\<close>

text \<open>
  C4. \<open>Get k\<close> resolves \<open>k\<close> from the innermost layer outwards. When no layer has an entry
  for \<open>k\<close>, the result is what the base store holds for \<open>k\<close> (its value, or absent). When
  \<open>d\<close> is the first layer from the inside with an entry for \<open>k\<close> (every layer opened after
  \<open>d\<close> has none), the result is absent if that entry is a tombstone and the entry's value
  otherwise, whatever the outer layers and the base store hold. \<open>Get\<close> is a function of
  the store that returns an optional value: it changes nothing and has no failure
  result.
\<close>

theorem get_resolution_order:
  "((\<forall>d \<in> set (transactions s). DAList.lookup d k = None) \<longrightarrow>
      Get s k = DAList.lookup (data s) k)
   \<and> (transactions s = outer @ [d] @ inner
        \<and> (\<forall>d' \<in> set inner. DAList.lookup d' k = None)
        \<and> DAList.lookup d k = Some e \<longrightarrow>
      Get s k = (case e of None \<Rightarrow> None | Some v \<Rightarrow> Some v))"
proof (intro conjI impI)
  assume none: "\<forall>d \<in> set (transactions s). DAList.lookup d k = None"
  then have "Get_scan (rev (transactions s) @ []) k = Get_scan [] k"
    by (intro Get_scan_skip) simp
  then show "Get s k = DAList.lookup (data s) k"
    by (simp add: Get_def split: option.splits)
next
  assume h: "transactions s = outer @ [d] @ inner
        \<and> (\<forall>d' \<in> set inner. DAList.lookup d' k = None)
        \<and> DAList.lookup d k = Some e"
  then have "Get_scan (rev inner @ (d # rev outer)) k = Get_scan (d # rev outer) k"
    by (intro Get_scan_skip) simp
  with h have "Get_scan (rev (transactions s)) k = Some e"
    by (simp add: Get_scan_hit del: Get_scan.simps)
  then show "Get s k = (case e of None \<Rightarrow> None | Some v \<Rightarrow> Some v)"
    by (simp add: Get_def split: option.splits)
qed

theorem get_resolution_order_witness:
  "DAList.lookup layer1 ''b'' = None
   \<and> DAList.lookup layer2 ''b'' = None
   \<and> DAList.lookup layer3 ''b'' = None
   \<and> DAList.lookup (data demo_store) ''b'' = Some 9
   \<and> Get demo_store ''b'' = Some 9
   \<and> transactions demo_store = [layer1] @ [layer2] @ [layer3]
   \<and> DAList.lookup layer3 ''k'' = None
   \<and> DAList.lookup layer2 ''k'' = Some None
   \<and> Get demo_store ''k'' = None
   \<and> DAList.lookup layer3 ''j'' = Some (Some 7)
   \<and> Get demo_store ''j'' = Some 7"
proof -
  have a: "\<forall>d \<in> set (transactions demo_store). DAList.lookup d ''b'' = None"
    by (simp add: demo_defs DAList.lookup_update)
  have b: "transactions demo_store = [layer1] @ [layer2] @ [layer3]
        \<and> (\<forall>d' \<in> set [layer3]. DAList.lookup d' ''k'' = None)
        \<and> DAList.lookup layer2 ''k'' = Some None"
    by (simp add: demo_defs DAList.lookup_update)
  have c: "transactions demo_store = [layer1, layer2] @ [layer3] @ []
        \<and> (\<forall>d' \<in> set []. DAList.lookup d' ''j'' = None)
        \<and> DAList.lookup layer3 ''j'' = Some (Some 7)"
    by (simp add: demo_defs DAList.lookup_update)
  have "Get demo_store ''b'' = DAList.lookup (data demo_store) ''b''"
    using get_resolution_order [of demo_store "''b''"] a by blast
  then have ga: "Get demo_store ''b'' = Some 9"
    by (simp add: demo_defs DAList.lookup_update)
  have gb: "Get demo_store ''k'' = None"
    using get_resolution_order [of demo_store "''k''" "[layer1]" layer2 "[layer3]" None] b
    by simp
  have gc: "Get demo_store ''j'' = Some 7"
    using get_resolution_order [of demo_store "''j''" "[layer1, layer2]" layer3 "[]" "Some 7"] c
    by simp
  have l: "DAList.lookup layer1 ''b'' = None" "DAList.lookup layer2 ''b'' = None"
    "DAList.lookup layer3 ''b'' = None" "DAList.lookup (data demo_store) ''b'' = Some 9"
    by (simp_all add: demo_defs DAList.lookup_update)
  from l b c ga gb gc show ?thesis
    by simp
qed

subsection \<open>Set\<close>

text \<open>
  C5. With an open transaction, \<open>Set k v\<close> makes the innermost layer map \<open>k\<close> to the value
  \<open>v\<close> and leaves that layer's other keys, every outer layer, the number of layers and
  the base store as they were. With no open transaction it makes the base store map
  \<open>k\<close> to \<open>v\<close>, leaves its other keys as they were, and the stack of layers stays empty.
\<close>

theorem set_write_target:
  "(transactions s \<noteq> [] \<longrightarrow>
      DAList.lookup (last (transactions (Set s k v))) = (DAList.lookup (last (transactions s)))(k \<mapsto> Some v)
      \<and> butlast (transactions (Set s k v)) = butlast (transactions s)
      \<and> length (transactions (Set s k v)) = length (transactions s)
      \<and> data (Set s k v) = data s)
   \<and> (transactions s = [] \<longrightarrow>
      DAList.lookup (data (Set s k v)) = (DAList.lookup (data s))(k \<mapsto> v)
      \<and> transactions (Set s k v) = [])"
  by (auto simp: Set_def DAList.lookup_update fun_eq_iff)

theorem set_write_target_witness:
  "transactions demo_store \<noteq> []
   \<and> DAList.lookup (last (transactions (Set demo_store ''k'' 4))) ''k'' = Some (Some 4)
   \<and> butlast (transactions (Set demo_store ''k'' 4)) = [layer1, layer2]
   \<and> data (Set demo_store ''k'' 4) = base0
   \<and> transactions (new_store :: int KeyValueStore) = []
   \<and> DAList.lookup (data (Set new_store ''k'' (4::int))) ''k'' = Some 4
   \<and> transactions (Set new_store ''k'' (4::int)) = []"
proof -
  have a: "transactions demo_store \<noteq> []"
    by (simp add: demo_defs)
  have b: "transactions (new_store :: int KeyValueStore) = []"
    by (simp add: new_store_def)
  from a b set_write_target [of demo_store "''k''" 4]
    set_write_target [of "new_store :: int KeyValueStore" "''k''" 4]
  show ?thesis
    by (simp add: demo_defs)
qed

subsection \<open>Del\<close>

text \<open>
  C6. With an open transaction, \<open>Del k\<close> records a tombstone for \<open>k\<close> in the innermost
  layer (the layer has an entry for \<open>k\<close> afterwards, and it is the deleted marker),
  leaves the outer layers and the base store as they were, and \<open>Get k\<close> is absent
  afterwards whatever they hold. With no open transaction it erases \<open>k\<close> from the base
  store, and the store is unchanged when \<open>k\<close> was not there.
\<close>

theorem del_semantics:
  "(transactions s \<noteq> [] \<longrightarrow>
      DAList.lookup (last (transactions (Del s k))) = (DAList.lookup (last (transactions s)))(k \<mapsto> None)
      \<and> butlast (transactions (Del s k)) = butlast (transactions s)
      \<and> length (transactions (Del s k)) = length (transactions s)
      \<and> data (Del s k) = data s
      \<and> Get (Del s k) k = None)
   \<and> (transactions s = [] \<longrightarrow>
      DAList.lookup (data (Del s k)) = (DAList.lookup (data s))(k := None)
      \<and> transactions (Del s k) = []
      \<and> (DAList.lookup (data s) k = None \<longrightarrow> Del s k = s))"
  by (auto simp: Del_def Get_def DAList.lookup_update fun_eq_iff delete_absent)

theorem del_semantics_witness:
  "transactions demo_store \<noteq> []
   \<and> DAList.lookup (last (transactions (Del demo_store ''b''))) ''b'' = Some None
   \<and> butlast (transactions (Del demo_store ''b'')) = [layer1, layer2]
   \<and> data (Del demo_store ''b'') = base0
   \<and> Get demo_store ''b'' = Some 9
   \<and> Get (Del demo_store ''b'') ''b'' = None
   \<and> transactions idle_store = []
   \<and> DAList.lookup (data (Del idle_store ''k'')) ''k'' = None
   \<and> DAList.lookup (data (Del idle_store ''k'')) ''b'' = Some 9
   \<and> DAList.lookup (data idle_store) ''z'' = None
   \<and> Del idle_store ''z'' = idle_store"
proof -
  have a: "transactions demo_store \<noteq> []"
    by (simp add: demo_defs)
  have b: "transactions idle_store = []"
    by (simp add: idle_store_def)
  have c: "DAList.lookup (data idle_store) ''z'' = None"
    by (simp add: idle_store_def base0_def DAList.lookup_update)
  have g: "Get demo_store ''b'' = Some 9"
    by (simp add: demo_defs Get_def DAList.lookup_update)
  from a b c g del_semantics [of demo_store "''b''"] del_semantics [of idle_store "''k''"]
    del_semantics [of idle_store "''z''"]
  show ?thesis
    by (simp add: demo_defs idle_store_def DAList.lookup_update)
qed

subsection \<open>Set after Del in one layer\<close>

text \<open>
  C10. With an open transaction, \<open>Del k\<close> followed by \<open>Set k v\<close> in the same innermost
  layer replaces the tombstone of \<open>k\<close> by the value \<open>v\<close>, and \<open>Get k\<close> returns \<open>v\<close>.
\<close>

theorem set_overwrites_same_layer_tombstone:
  "transactions s \<noteq> [] \<Longrightarrow>
     DAList.lookup (last (transactions (Del s k))) k = Some None
     \<and> DAList.lookup (last (transactions (Set (Del s k) k v))) k = Some (Some v)
     \<and> Get (Set (Del s k) k v) k = Some v"
  by (simp add: Del_def Set_def Get_def)

theorem set_overwrites_same_layer_tombstone_witness:
  "transactions demo_store \<noteq> []
   \<and> DAList.lookup (last (transactions (Del demo_store ''j''))) ''j'' = Some None
   \<and> DAList.lookup (last (transactions (Set (Del demo_store ''j'') ''j'' 3))) ''j'' = Some (Some 3)
   \<and> Get (Set (Del demo_store ''j'') ''j'' 3) ''j'' = Some 3"
proof -
  have a: "transactions demo_store \<noteq> []"
    by (simp add: demo_defs)
  from a set_overwrites_same_layer_tombstone [OF a, of "''j''" 3] show ?thesis
    by simp
qed

subsection \<open>Merge, then discard\<close>

text \<open>
  C7. From a store with no open transaction, the sequence
  \<open>Set k v1; Begin; Del k; Begin; Set k v2; Commit; Rollback\<close> runs as follows.
  After \<open>Set k v1\<close>, \<open>Get k\<close> returns \<open>v1\<close>. After \<open>Begin; Del k\<close>, \<open>Get k\<close> is absent.
  Before the \<open>Commit\<close> there are two layers: the outer one holds the tombstone of \<open>k\<close>,
  the inner one holds \<open>k -> v2\<close>. After the \<open>Commit\<close> there is one layer, it holds \<open>k -> v2\<close>
  in place of the tombstone, the base store still holds \<open>k -> v1\<close>, and \<open>Get k\<close> returns
  \<open>v2\<close>. After the \<open>Rollback\<close> no layer is left, the base store holds \<open>k -> v1\<close> (the store
  is the one that \<open>Set k v1\<close> alone gives), and \<open>Get k\<close> returns \<open>v1\<close>. The claim is the
  instance \<open>v1 = 1\<close>, \<open>v2 = 2\<close>.
\<close>

theorem merge_then_discard:
  "transactions s = [] \<Longrightarrow>
     Get (run [OpSet k v1] s) k = Some v1
     \<and> Get (run [OpSet k v1, OpBegin, OpDel k] s) k = None
     \<and> length (transactions (run [OpSet k v1, OpBegin, OpDel k, OpBegin, OpSet k v2] s)) = 2
     \<and> DAList.lookup (hd (transactions
           (run [OpSet k v1, OpBegin, OpDel k, OpBegin, OpSet k v2] s))) k = Some None
     \<and> DAList.lookup (last (transactions
           (run [OpSet k v1, OpBegin, OpDel k, OpBegin, OpSet k v2] s))) k = Some (Some v2)
     \<and> length (transactions
           (run [OpSet k v1, OpBegin, OpDel k, OpBegin, OpSet k v2, OpCommit] s)) = 1
     \<and> DAList.lookup (last (transactions
           (run [OpSet k v1, OpBegin, OpDel k, OpBegin, OpSet k v2, OpCommit] s))) k
         = Some (Some v2)
     \<and> DAList.lookup (data
           (run [OpSet k v1, OpBegin, OpDel k, OpBegin, OpSet k v2, OpCommit] s)) k = Some v1
     \<and> Get (run [OpSet k v1, OpBegin, OpDel k, OpBegin, OpSet k v2, OpCommit] s) k = Some v2
     \<and> transactions
           (run [OpSet k v1, OpBegin, OpDel k, OpBegin, OpSet k v2, OpCommit, OpRollback] s) = []
     \<and> DAList.lookup (data
           (run [OpSet k v1, OpBegin, OpDel k, OpBegin, OpSet k v2, OpCommit, OpRollback] s)) k
         = Some v1
     \<and> run [OpSet k v1, OpBegin, OpDel k, OpBegin, OpSet k v2, OpCommit, OpRollback] s
         = Set s k v1
     \<and> Get (run [OpSet k v1, OpBegin, OpDel k, OpBegin, OpSet k v2, OpCommit, OpRollback] s) k
         = Some v1"
proof -
  assume idle: "transactions s = []"
  define tomb :: "'a diff" where "tomb = DAList.update k None DAList.empty"
  define val2 :: "'a diff" where "val2 = DAList.update k (Some v2) DAList.empty"
  define merged where "merged = merge_below val2 tomb"
  define base1 where "base1 = DAList.update k v1 (data s)"
  have r1: "run [OpSet k v1] s = s\<lparr>data := base1\<rparr>"
    using idle by (simp add: run_def Set_def base1_def)
  have r3: "run [OpSet k v1, OpBegin, OpDel k] s = s\<lparr>data := base1, transactions := [tomb]\<rparr>"
    using idle by (simp add: run_def Set_def Begin_def Del_def base1_def tomb_def)
  have r5: "run [OpSet k v1, OpBegin, OpDel k, OpBegin, OpSet k v2] s
      = s\<lparr>data := base1, transactions := [tomb, val2]\<rparr>"
    using idle by (simp add: run_def Set_def Begin_def Del_def base1_def tomb_def val2_def)
  have r6: "run [OpSet k v1, OpBegin, OpDel k, OpBegin, OpSet k v2, OpCommit] s
      = s\<lparr>data := base1, transactions := [merged]\<rparr>"
    using idle
    by (simp add: run_def Set_def Begin_def Del_def Commit_def base1_def tomb_def val2_def
        merged_def)
  have r7: "run [OpSet k v1, OpBegin, OpDel k, OpBegin, OpSet k v2, OpCommit, OpRollback] s
      = Set s k v1"
    using idle by (simp add: run_def Set_def Begin_def Del_def Commit_def Rollback_def)
  have s1: "Set s k v1 = s\<lparr>data := base1\<rparr>"
    using idle by (simp add: Set_def base1_def)
  have lb: "DAList.lookup base1 k = Some v1"
    by (simp add: base1_def)
  have lt: "DAList.lookup tomb k = Some None"
    by (simp add: tomb_def)
  have lv: "DAList.lookup val2 k = Some (Some v2)"
    by (simp add: val2_def)
  have lm: "DAList.lookup merged k = Some (Some v2)"
    by (simp add: merged_def lookup_merge_below lv)
  have g1: "Get (s\<lparr>data := base1\<rparr>) k = Some v1"
    using idle lb by (simp add: Get_def)
  have g3: "Get (s\<lparr>data := base1, transactions := [tomb]\<rparr>) k = None"
    using lt by (simp add: Get_def)
  have g6: "Get (s\<lparr>data := base1, transactions := [merged]\<rparr>) k = Some v2"
    using lm by (simp add: Get_def)
  show ?thesis
    unfolding r1 r3 r5 r6 r7
    using idle lb lt lv lm g1 g3 g6 by (simp add: s1)
qed

theorem merge_then_discard_witness:
  "transactions idle_store = []
   \<and> DAList.lookup (data idle_store) ''k'' = Some 5
   \<and> Get (run [OpSet ''k'' 1, OpBegin, OpDel ''k''] idle_store) ''k'' = None
   \<and> DAList.lookup (hd (transactions
         (run [OpSet ''k'' 1, OpBegin, OpDel ''k'', OpBegin, OpSet ''k'' 2] idle_store))) ''k''
       = Some None
   \<and> DAList.lookup (last (transactions
         (run [OpSet ''k'' 1, OpBegin, OpDel ''k'', OpBegin, OpSet ''k'' 2, OpCommit] idle_store)))
         ''k'' = Some (Some 2)
   \<and> Get (run [OpSet ''k'' 1, OpBegin, OpDel ''k'', OpBegin, OpSet ''k'' 2, OpCommit] idle_store)
        ''k'' = Some 2
   \<and> transactions
        (run [OpSet ''k'' 1, OpBegin, OpDel ''k'', OpBegin, OpSet ''k'' 2, OpCommit, OpRollback]
          idle_store) = []
   \<and> DAList.lookup (data
        (run [OpSet ''k'' 1, OpBegin, OpDel ''k'', OpBegin, OpSet ''k'' 2, OpCommit, OpRollback]
          idle_store)) ''k'' = Some 1
   \<and> Get (run [OpSet ''k'' 1, OpBegin, OpDel ''k'', OpBegin, OpSet ''k'' 2, OpCommit, OpRollback]
        idle_store) ''k'' = Some 1"
proof -
  have a: "transactions idle_store = []"
    by (simp add: idle_store_def)
  have b: "DAList.lookup (data idle_store) ''k'' = Some 5"
    by (simp add: idle_store_def base0_def DAList.lookup_update)
  from a b merge_then_discard [OF a, of "''k''" 1 2] show ?thesis
    by blast
qed

subsection \<open>Unmatched Commit and Rollback\<close>

text \<open>
  C8. With no open transaction (the vector of layers is empty), \<open>Commit\<close> and \<open>Rollback\<close>
  return the store as it was: the base store and the (empty) stack of layers are both
  unchanged. Both functions are total, so there is no error and no underflow.
\<close>

theorem unmatched_commit_rollback_noop:
  "transactions s = [] \<Longrightarrow> Commit s = s \<and> Rollback s = s"
  by (simp add: Commit_def Rollback_def)

theorem unmatched_commit_rollback_noop_witness:
  "transactions (new_store :: int KeyValueStore) = []
   \<and> Commit (new_store :: int KeyValueStore) = new_store
   \<and> Rollback (new_store :: int KeyValueStore) = new_store"
  using unmatched_commit_rollback_noop [of "new_store :: int KeyValueStore"]
  by (simp add: new_store_def)

subsection \<open>Commit\<close>

text \<open>
  C2. \<open>Commit\<close> changes nothing when no transaction is open. Otherwise it removes the
  innermost layer \<open>top_diff\<close>, and
  (a) when a layer \<open>below_diff\<close> remains beneath it, that layer afterwards holds for every
  key the entry of \<open>top_diff\<close> when \<open>top_diff\<close> has one (a value or a tombstone, copied as
  it is) and its own previous entry otherwise, while the deeper layers and the base
  store are as before;
  (b) when it was the only layer, the stack is empty afterwards and the base store
  afterwards holds for every key: nothing when \<open>top_diff\<close> has a tombstone for it, the
  value when \<open>top_diff\<close> has a value for it, and its own previous content otherwise.
\<close>

theorem commit_semantics:
  "(transactions s = [] \<longrightarrow> Commit s = s)
   \<and> (transactions s = deeper @ [below_diff, top_diff] \<longrightarrow>
        butlast (transactions (Commit s)) = deeper
        \<and> length (transactions (Commit s)) = Suc (length deeper)
        \<and> DAList.lookup (last (transactions (Commit s))) k =
            (case DAList.lookup top_diff k of
               Some e \<Rightarrow> Some e
             | None \<Rightarrow> DAList.lookup below_diff k)
        \<and> data (Commit s) = data s)
   \<and> (transactions s = [top_diff] \<longrightarrow>
        transactions (Commit s) = []
        \<and> DAList.lookup (data (Commit s)) k =
            (case DAList.lookup top_diff k of
               Some None \<Rightarrow> None
             | Some (Some v) \<Rightarrow> Some v
             | None \<Rightarrow> DAList.lookup (data s) k))"
proof (intro conjI impI)
  assume "transactions s = []"
  then show "Commit s = s"
    by (simp add: Commit_def)
next
  assume t: "transactions s = deeper @ [below_diff, top_diff]"
  then have bl: "butlast (transactions s) = deeper @ [below_diff]" and la: "last (transactions s) = top_diff"
    by (simp_all add: butlast_append)
  from t bl la show "butlast (transactions (Commit s)) = deeper"
    by (simp add: Commit_def Let_def)
  from t bl la show "length (transactions (Commit s)) = Suc (length deeper)"
    by (simp add: Commit_def Let_def)
  from t bl la show "data (Commit s) = data s"
    by (simp add: Commit_def Let_def)
  from t bl la show "DAList.lookup (last (transactions (Commit s))) k =
            (case DAList.lookup top_diff k of
               Some e \<Rightarrow> Some e
             | None \<Rightarrow> DAList.lookup below_diff k)"
    by (simp add: Commit_def Let_def lookup_merge_below split: option.splits)
next
  assume t: "transactions s = [top_diff]"
  then show "transactions (Commit s) = []"
    by (simp add: Commit_def Let_def)
  from t have "data (Commit s) = apply_diff top_diff (data s)"
    by (simp add: Commit_def Let_def apply_diff_def)
  then show "DAList.lookup (data (Commit s)) k =
            (case DAList.lookup top_diff k of
               Some None \<Rightarrow> None
             | Some (Some v) \<Rightarrow> Some v
             | None \<Rightarrow> DAList.lookup (data s) k)"
    by (simp add: lookup_apply_diff split: option.splits)
qed

theorem commit_semantics_witness:
  "transactions idle_store = [] \<and> Commit idle_store = idle_store
   \<and> transactions nested_store = [layer3] @ [layer1, layer2]
   \<and> DAList.lookup layer1 ''k'' = Some (Some 1)
   \<and> DAList.lookup layer2 ''k'' = Some None
   \<and> butlast (transactions (Commit nested_store)) = [layer3]
   \<and> length (transactions (Commit nested_store)) = 2
   \<and> DAList.lookup (last (transactions (Commit nested_store))) ''k'' = Some None
   \<and> data (Commit nested_store) = base0
   \<and> transactions single_store = [layer2]
   \<and> DAList.lookup (data single_store) ''k'' = Some 5
   \<and> transactions (Commit single_store) = []
   \<and> DAList.lookup (data (Commit single_store)) ''k'' = None
   \<and> DAList.lookup (data (Commit single_store)) ''b'' = Some 9
   \<and> transactions single_store' = [layer1]
   \<and> DAList.lookup (data (Commit single_store')) ''k'' = Some 1"
proof -
  have a: "transactions idle_store = []"
    by (simp add: idle_store_def)
  have b: "transactions nested_store = [layer3] @ [layer1, layer2]"
    by (simp add: nested_store_def)
  have c: "transactions single_store = [layer2]"
    by (simp add: single_store_def)
  have d: "transactions single_store' = [layer1]"
    by (simp add: single_store'_def)
  have l: "DAList.lookup layer1 ''k'' = Some (Some 1)" "DAList.lookup layer2 ''k'' = Some None"
    "DAList.lookup layer2 ''b'' = None" "DAList.lookup base0 ''k'' = Some 5"
    "DAList.lookup base0 ''b'' = Some 9"
    by (simp_all add: demo_defs DAList.lookup_update)
  have da: "data nested_store = base0" "data single_store = base0" "data single_store' = base0"
    by (simp_all add: nested_store_def single_store_def single_store'_def)
  from a b c d l da
    commit_semantics [of idle_store "[]" layer1 layer2 "''k''"]
    commit_semantics [of nested_store "[layer3]" layer1 layer2 "''k''"]
    commit_semantics [of single_store "[]" layer1 layer2 "''k''"]
    commit_semantics [of single_store "[]" layer1 layer2 "''b''"]
    commit_semantics [of single_store' "[]" layer2 layer1 "''k''"]
  show ?thesis
    by simp
qed

subsection \<open>Rollback\<close>

text \<open>
  C3. From any store \<open>s\<close>, \<open>Begin\<close> followed by any finite sequence of \<open>Set\<close> and \<open>Del\<close>
  calls only ever changes the layer that \<open>Begin\<close> pushed: the outer layers and the base
  store stay those of \<open>s\<close>. The \<open>Rollback\<close> that follows drops that layer without
  merging it, so the store is \<open>s\<close> again, and with it the visible state.
\<close>

theorem rollback_pure_undo:
  "list_all is_mutation muts \<Longrightarrow>
     (\<exists>d. transactions (run (OpBegin # muts) s) = transactions s @ [d])
     \<and> data (run (OpBegin # muts) s) = data s
     \<and> run (OpBegin # muts @ [OpRollback]) s = s
     \<and> BuildVisibleState (run (OpBegin # muts @ [OpRollback]) s) = BuildVisibleState s"
proof -
  assume m: "list_all is_mutation muts"
  have b: "transactions (Begin s) = transactions s @ [DAList.empty]"
    by (simp add: Begin_def)
  from mutation_innermost_only [OF m b] obtain d' where
    r: "run muts (Begin s) = (Begin s)\<lparr>transactions := transactions s @ [d']\<rparr>"
    by blast
  have r1: "run (OpBegin # muts) s = run muts (Begin s)"
    by (simp add: run_def)
  have r2: "run (OpBegin # muts @ [OpRollback]) s = Rollback (run muts (Begin s))"
    by (simp add: run_def)
  from r have undo: "Rollback (run muts (Begin s)) = s"
    by (simp add: Rollback_def Begin_def)
  from r r1 r2 undo show ?thesis
    by (simp add: Begin_def)
qed

theorem rollback_pure_undo_witness:
  "list_all is_mutation [OpSet ''k'' (8::int), OpDel ''b'', OpSet ''n'' 2]
   \<and> run (OpBegin # [OpSet ''k'' 8, OpDel ''b'', OpSet ''n'' 2] @ [OpRollback]) demo_store
       = demo_store
   \<and> Get (run (OpBegin # [OpSet ''k'' 8, OpDel ''b'', OpSet ''n'' 2]) demo_store) ''k'' = Some 8
   \<and> Get (run (OpBegin # [OpSet ''k'' 8, OpDel ''b'', OpSet ''n'' 2] @ [OpRollback]) demo_store)
       ''k'' = None"
proof -
  have a: "list_all is_mutation [OpSet ''k'' (8::int), OpDel ''b'', OpSet ''n'' 2]"
    by simp
  have g: "Get (run (OpBegin # [OpSet ''k'' 8, OpDel ''b'', OpSet ''n'' 2]) demo_store) ''k''
      = Some 8"
    by (simp add: run_def Begin_def Set_def Del_def Get_def demo_defs DAList.lookup_update)
  have g0: "Get demo_store ''k'' = None"
    by (simp add: Get_def demo_defs DAList.lookup_update)
  from a g g0 rollback_pure_undo [OF a, of demo_store] show ?thesis
    by simp
qed

subsection \<open>Count and Keys\<close>

text \<open>
  C9 (amended). In every store reached from a fresh one, and for every filter value
  \<open>v\<close>: \<open>Count v\<close>, a 32-bit unsigned number, is the length of \<open>Keys v\<close> modulo \<open>2 ^ 32\<close>,
  hence equal to it whenever that length is below \<open>2 ^ 32\<close>; the length of \<open>Keys v\<close> is
  the number of keys of the visible state whose value is \<open>v\<close>, and \<open>Keys v\<close> lists exactly
  those keys. With no filter, \<open>Count\<close> is the length of \<open>Keys\<close> modulo \<open>2 ^ 32\<close>, hence equal
  to it below \<open>2 ^ 32\<close>; that length is the number of entries of the visible state, and
  \<open>Keys\<close> lists exactly its keys, each once.
\<close>

theorem count_keys_consistency:
  "(let s = run ops new_store; vis = BuildVisibleState s in
      unat (Count s (Some v)) = length (Keys s (Some v)) mod 2 ^ 32
      \<and> (length (Keys s (Some v)) < 2 ^ 32 \<longrightarrow>
           unat (Count s (Some v)) = length (Keys s (Some v)))
      \<and> length (Keys s (Some v)) = card {k. DAList.lookup vis k = Some v}
      \<and> set (Keys s (Some v)) = {k. DAList.lookup vis k = Some v}
      \<and> unat (Count s None) = length (Keys s None) mod 2 ^ 32
      \<and> (length (Keys s None) < 2 ^ 32 \<longrightarrow> unat (Count s None) = length (Keys s None))
      \<and> length (Keys s None) = card (dom (DAList.lookup vis))
      \<and> set (Keys s None) = dom (DAList.lookup vis)
      \<and> distinct (Keys s None))"
proof -
  have c: "unat (Count s w) = length (Keys s w) mod 2 ^ 32" for s :: "'a KeyValueStore" and w
    by (simp add: Count_Keys unat_of_nat)
  show ?thesis
    unfolding Let_def
    by (intro conjI impI c Count_exact Keys_length_filter Keys_set_filter Keys_length_all
        Keys_set_all Keys_distinct)
qed

theorem count_keys_consistency_witness:
  "Keys (run sample_ops new_store) (Some 1) = [''c'', ''b'']
   \<and> length (Keys (run sample_ops new_store) (Some 1)) < 2 ^ 32
   \<and> unat (Count (run sample_ops new_store) (Some 1)) = 2
   \<and> Keys (run sample_ops new_store) None = [''c'', ''b'', ''d'']
   \<and> length (Keys (run sample_ops new_store) None) < 2 ^ 32
   \<and> unat (Count (run sample_ops new_store) None) = 3"
proof -
  have k1: "Keys (run sample_ops new_store) (Some 1) = [''c'', ''b'']"
    by (simp add: Keys_eq sample_visible)
  have k2: "Keys (run sample_ops new_store) None = [''c'', ''b'', ''d'']"
    by (simp add: Keys_eq sample_visible)
  from count_keys_consistency [of sample_ops 1] show ?thesis
    unfolding Let_def by (simp add: k1 k2)
qed

text \<open>
  The claim without the modulus fails on a store that holds \<open>2 ^ 32\<close> keys, all with value
  0, reached from the fresh store by \<open>2 ^ 32\<close> calls of \<open>Set\<close>: \<open>Keys\<close> returns \<open>2 ^ 32\<close> keys,
  with the filter 0 and without a filter, and \<open>Count\<close> returns 0 for both.
\<close>

theorem count_wraps_counterexample:
  "length (Keys (run (fill_ops 4294967296) new_store) None) = 4294967296
   \<and> Count (run (fill_ops 4294967296) new_store) None = 0
   \<and> length (Keys (run (fill_ops 4294967296) new_store) (Some 0)) = 4294967296
   \<and> Count (run (fill_ops 4294967296) new_store) (Some 0) = 0"
proof -
  have le: "(4294967296::nat) \<le> 4294967296"
    by simp
  have z: "(of_nat 4294967296 :: 32 word) = 0"
    by simp
  from fill_count_keys [OF le] z show ?thesis
    by (simp only: Count_Keys simp_thms)
qed

end
